theory Spec2Isabelle
  imports Complex_Main "HOL-Library.Log_Nat"
begin

section \<open>Python floats\<close>

text \<open>
  A Python \<open>float\<close> is an IEEE double: a finite value, one of the two infinities, or
  NaN. \<open>Fin x\<close> is the finite double whose value is the real number \<open>x\<close> (\<open>Fin 0\<close> is
  \<open>0.0\<close>) and \<open>NegZero\<close> is \<open>-0.0\<close>.
\<close>

datatype pyfloat = Fin real | NegZero | PInf | NInf | NaN

fun fin_val :: "pyfloat \<Rightarrow> real" where
  "fin_val (Fin x) = x"
| "fin_val _ = 0"

text \<open>The comparison \<open>a < b\<close>: false as soon as one side is NaN; \<open>-0.0\<close> compares as zero.\<close>

definition py_lt :: "pyfloat \<Rightarrow> pyfloat \<Rightarrow> bool" where
  "py_lt a b =
     (if a = NaN \<or> b = NaN then False
      else if a = PInf \<or> b = NInf then False
      else if a = NInf \<or> b = PInf then True
      else fin_val a < fin_val b)"


text \<open>\<open>a <= b\<close>: again false on NaN, so it is not the negation of \<open>b < a\<close>.\<close>

definition py_le :: "pyfloat \<Rightarrow> pyfloat \<Rightarrow> bool" where
  "py_le a b = (a \<noteq> NaN \<and> b \<noteq> NaN \<and> \<not> py_lt b a)"

datatype py_exception =
  KeyError | ValueError | IndexError | ZeroDivisionError | TypeError | MemoryError
  | OverflowError | RuntimeError

section \<open>Rounding to a double\<close>

text \<open>
  Every arithmetic result and every number read from text is rounded to the nearest
  double, ties to the even significand: 53 significant bits, the smallest positive
  double \<open>2^-1074\<close>, overflow to infinity from \<open>2^1024\<close> on. \<open>ilog2 x\<close> is the exponent
  \<open>k\<close> with \<open>2^k \<le> x < 2^(k+1)\<close>.
\<close>

definition pow2 :: "int \<Rightarrow> real" where
  "pow2 e = (if 0 \<le> e then 2 ^ nat e else 1 / 2 ^ nat (- e))"

definition ilog2 :: "real \<Rightarrow> int" where
  "ilog2 x = (if 1 \<le> x then int (floorlog 2 (nat \<lfloor>x\<rfloor>)) - 1
              else - int (floorlog 2 (nat (\<lceil>1 / x\<rceil> - 1))))"

definition round_half_even :: "real \<Rightarrow> int" where
  "round_half_even t =
     (let f = \<lfloor>t\<rfloor>; r = t - of_int f
      in if r < 1 / 2 then f else if 1 / 2 < r then f + 1 else if even f then f else f + 1)"

text \<open>
  The magnitude \<open>a > 0\<close> rounded to the grid of doubles around it, whose spacing is
  \<open>2 ^ dexp a\<close>.
\<close>

definition dexp :: "real \<Rightarrow> int" where
  "dexp a = max (ilog2 a - 52) (- 1074)"

definition round_mag :: "real \<Rightarrow> real" where
  "round_mag a = of_int (round_half_even (a / pow2 (dexp a))) * pow2 (dexp a)"

definition round_double :: "real \<Rightarrow> pyfloat" where
  "round_double x =
     (if x = 0 then Fin 0
      else
        (let v = round_mag \<bar>x\<bar>
         in if 2 ^ 1024 \<le> v then (if x < 0 then NInf else PInf)
            else if v = 0 then (if x < 0 then NegZero else Fin 0)
            else Fin (if x < 0 then - v else v)))"

text \<open>A value that is a double: rounding leaves it as it is.\<close>

definition is_double :: "pyfloat \<Rightarrow> bool" where
  "is_double v = (case v of Fin x \<Rightarrow> round_double x = Fin x | _ \<Rightarrow> True)"

fun is_neg :: "pyfloat \<Rightarrow> bool" where
  "is_neg (Fin x) = (x < 0)"
| "is_neg NegZero = True"
| "is_neg NInf = True"
| "is_neg _ = False"

definition is_inf :: "pyfloat \<Rightarrow> bool" where
  "is_inf v = (v = PInf \<or> v = NInf)"

definition is_zero :: "pyfloat \<Rightarrow> bool" where
  "is_zero v = (v = Fin 0 \<or> v = NegZero)"

fun is_finite :: "pyfloat \<Rightarrow> bool" where
  "is_finite (Fin _) = True"
| "is_finite NegZero = True"
| "is_finite _ = False"

text \<open>The product \<open>a * b\<close> of two floats.\<close>

definition py_mul :: "pyfloat \<Rightarrow> pyfloat \<Rightarrow> pyfloat" where
  "py_mul a b =
     (if a = NaN \<or> b = NaN then NaN
      else if is_inf a \<or> is_inf b then
        (if is_zero a \<or> is_zero b then NaN
         else if is_neg a = is_neg b then PInf else NInf)
      else if fin_val a * fin_val b = 0 then
        (if is_neg a = is_neg b then Fin 0 else NegZero)
      else round_double (fin_val a * fin_val b))"

fun py_abs :: "pyfloat \<Rightarrow> pyfloat" where
  "py_abs (Fin a) = Fin \<bar>a\<bar>"
| "py_abs NegZero = Fin 0"
| "py_abs PInf = PInf"
| "py_abs NInf = PInf"
| "py_abs NaN = NaN"

fun py_neg :: "pyfloat \<Rightarrow> pyfloat" where
  "py_neg (Fin a) = (if a = 0 then NegZero else Fin (- a))"
| "py_neg NegZero = Fin 0"
| "py_neg PInf = NInf"
| "py_neg NInf = PInf"
| "py_neg NaN = NaN"

text \<open>
  The sum and the difference of two floats. An exact sum of zero is \<open>0.0\<close>, unless both
  terms are \<open>-0.0\<close>.
\<close>

definition py_add :: "pyfloat \<Rightarrow> pyfloat \<Rightarrow> pyfloat" where
  "py_add a b =
     (if a = NaN \<or> b = NaN then NaN
      else if is_inf a then (if is_inf b \<and> a \<noteq> b then NaN else a)
      else if is_inf b then b
      else if fin_val a + fin_val b = 0 then
        (if a = NegZero \<and> b = NegZero then NegZero else Fin 0)
      else round_double (fin_val a + fin_val b))"

definition py_sub :: "pyfloat \<Rightarrow> pyfloat \<Rightarrow> pyfloat" where
  "py_sub a b = py_add a (py_neg b)"

text \<open>
  Python integers are unbounded. \<open>float(i)\<close>, as it is taken when an integer meets a float
  in a product, rounds to the nearest double and raises \<open>OverflowError\<close> beyond the
  largest one; \<open>a / b\<close> on two integers is the correctly rounded quotient; \<open>int(x)\<close>
  truncates towards zero.
\<close>

definition float_of_int :: "int \<Rightarrow> py_exception + pyfloat" where
  "float_of_int i =
     (let r = round_double (of_int i) in if is_inf r then Inl OverflowError else Inr r)"

definition int_truediv :: "int \<Rightarrow> int \<Rightarrow> py_exception + pyfloat" where
  "int_truediv a b =
     (if b = 0 then Inl ZeroDivisionError
      else if a = 0 then Inr (if b < 0 then NegZero else Fin 0)
      else (let r = round_double (of_int a / of_int b)
            in if is_inf r then Inl OverflowError else Inr r))"

fun int_of_float :: "pyfloat \<Rightarrow> py_exception + int" where
  "int_of_float (Fin x) = Inr (if 0 \<le> x then \<lfloor>x\<rfloor> else \<lceil>x\<rceil>)"
| "int_of_float NegZero = Inr 0"
| "int_of_float PInf = Inl OverflowError"
| "int_of_float NInf = Inl OverflowError"
| "int_of_float NaN = Inl ValueError"

section \<open>The COBRApy model behind \<open>apply_constraints\<close> (api.py)\<close>

text \<open>
  The model object that \<open>model_from_dict\<close> hands to \<open>apply_constraints\<close> is built by the
  COBRApy library, which is not part of the repository; what the source relies on is
  written out here after COBRApy's own sources. A reaction holds its id, its bounds,
  its gene rule as text (\<open>gene_reaction_rule\<close>) and the same rule parsed (\<open>gpr\<close>: a gene
  name, a conjunction, a disjunction, or nothing for a reaction without rule). A gene
  holds its id and its \<open>functional\<close> flag.
\<close>

datatype gpr = NoRule | Gene string | And gpr gpr | Or gpr gpr

record reaction =
  rid :: string
  lower_bound :: pyfloat
  upper_bound :: pyfloat
  gene_reaction_rule :: string
  gpr :: gpr

record gene =
  gid :: string
  functional :: bool

record network_model =
  reactions :: "reaction list"
  genes :: "gene list"






text \<open>
  \<open>Reaction.functional\<close>: the parsed rule evaluated with the non-functional genes
  taken as absent; a reaction without rule is functional.
\<close>

fun gpr_eval :: "gpr \<Rightarrow> string set \<Rightarrow> bool" where
  "gpr_eval NoRule K = True"
| "gpr_eval (Gene g) K = (g \<notin> K)"
| "gpr_eval (And a b) K = (gpr_eval a K \<and> gpr_eval b K)"
| "gpr_eval (Or a b) K = (gpr_eval a K \<or> gpr_eval b K)"

fun gpr_genes :: "gpr \<Rightarrow> string set" where
  "gpr_genes NoRule = {}"
| "gpr_genes (Gene g) = {g}"
| "gpr_genes (And a b) = gpr_genes a \<union> gpr_genes b"
| "gpr_genes (Or a b) = gpr_genes a \<union> gpr_genes b"

definition knocked_out_genes :: "network_model \<Rightarrow> string set" where
  "knocked_out_genes m = set (map gid (filter (\<lambda>x. \<not> functional x) (genes m)))"

definition reaction_functional :: "network_model \<Rightarrow> reaction \<Rightarrow> bool" where
  "reaction_functional m r = gpr_eval (gpr r) (knocked_out_genes m)"

text \<open>\<open>reaction.bounds = (0, 0)\<close>.\<close>

definition zero_bounds :: "reaction \<Rightarrow> reaction" where
  "zero_bounds r = r\<lparr>lower_bound := Fin 0, upper_bound := Fin 0\<rparr>"

text \<open>
  \<open>Gene.knock_out()\<close>: the gene is marked non-functional, and every reaction whose
  rule names the gene and that is no longer functional gets the bounds \<open>(0, 0)\<close>.
\<close>

definition knock_out :: "string \<Rightarrow> network_model \<Rightarrow> network_model" where
  "knock_out g m =
     (let m1 = m\<lparr>genes := map (\<lambda>x. if gid x = g then x\<lparr>functional := False\<rparr> else x) (genes m)\<rparr>
      in m1\<lparr>reactions :=
              map (\<lambda>r. if g \<in> gpr_genes (gpr r) \<and> \<not> reaction_functional m1 r
                        then zero_bounds r else r)
                (reactions m1)\<rparr>)"

section \<open>\<open>apply_constraints\<close> (api.py)\<close>




definition has_gene :: "network_model \<Rightarrow> string \<Rightarrow> bool" where
  "has_gene m g = (g \<in> set (map gid (genes m)))"



text \<open>What an override means for one reaction: the fields present replace the bounds.\<close>

definition override_reaction :: "(string \<rightharpoonup> pyfloat) \<Rightarrow> reaction \<Rightarrow> reaction" where
  "override_reaction bounds r =
     r\<lparr>lower_bound := (case bounds ''lb'' of None \<Rightarrow> lower_bound r | Some v \<Rightarrow> v),
       upper_bound := (case bounds ''ub'' of None \<Rightarrow> upper_bound r | Some v \<Rightarrow> v)\<rparr>"


text \<open>All overrides at once: the override stored under the reaction's id, if any.\<close>

definition override_all :: "(string \<times> (string \<rightharpoonup> pyfloat)) list \<Rightarrow> reaction \<Rightarrow> reaction" where
  "override_all cs r = (case map_of cs (rid r) of None \<Rightarrow> r | Some b \<Rightarrow> override_reaction b r)"


text \<open>
  The genes of a knock-out list that the model has, and the reactions the list
  disables: those naming one of these genes whose rule fails once all of them are
  non-functional.
\<close>

definition present_genes :: "network_model \<Rightarrow> string list \<Rightarrow> string set" where
  "present_genes m ks = set (filter (has_gene m) ks)"


text \<open>Every reaction's lower bound is at most its upper bound (spec section 3).\<close>

definition bounds_ordered :: "network_model \<Rightarrow> bool" where
  "bounds_ordered m = list_all (\<lambda>r. py_le (lower_bound r) (upper_bound r)) (reactions m)"

section \<open>\<open>BiGGModelCatalog.get_benchmark_models\<close> (benchmark.py)\<close>

record model_info =
  bigg_id :: string
  organism :: string
  metabolite_count :: int
  reaction_count :: int
  gene_count :: int

text \<open>\<open>xs[i]\<close> on a list: a negative index counts from the end.\<close>

definition py_index :: "'a list \<Rightarrow> int \<Rightarrow> py_exception + 'a" where
  "py_index xs i =
     (if 0 \<le> i \<and> i < int (length xs) then Inr (xs ! nat i)
      else if i < 0 \<and> - int (length xs) \<le> i then Inr (xs ! nat (i + int (length xs)))
      else Inl IndexError)"

text \<open>\<open>range(n)\<close>.\<close>

definition py_range :: "int \<Rightarrow> int list" where
  "py_range n = map int [0..<nat n]"

text \<open>
  The loop \<open>for i in range(limit): idx = int(i * step); selected.append(filtered[idx])\<close>,
  over the values of \<open>i\<close> still to come.
\<close>

fun select_loop ::
  "model_info list \<Rightarrow> pyfloat \<Rightarrow> int list \<Rightarrow> model_info list \<Rightarrow> py_exception + model_info list" where
  "select_loop filtered step [] selected = Inr selected"
| "select_loop filtered step (i # rest) selected =
     (case float_of_int i of
        Inl e \<Rightarrow> Inl e
      | Inr fi \<Rightarrow>
          (case int_of_float (py_mul fi step) of
             Inl e \<Rightarrow> Inl e
           | Inr idx \<Rightarrow>
               (case py_index filtered idx of
                  Inl e \<Rightarrow> Inl e
                | Inr m \<Rightarrow> select_loop filtered step rest (selected @ [m]))))"

text \<open>
  \<open>get_benchmark_models(min_reactions, max_reactions, limit)\<close>. \<open>catalog\<close> is the
  attribute \<open>self.catalog\<close>; when it is empty the catalog is fetched first, and \<open>fetched\<close>
  is what \<open>fetch_catalog\<close> then gives: the list it stores in \<open>self.catalog\<close>, or the
  exception it raises. \<open>list.sort\<close> is stable, as \<open>sort_key\<close> is.
\<close>

definition size_filter :: "int \<Rightarrow> int \<Rightarrow> model_info list \<Rightarrow> model_info list" where
  "size_filter min_reactions max_reactions catalog =
     sort_key reaction_count
       (filter (\<lambda>m. min_reactions \<le> reaction_count m \<and> reaction_count m \<le> max_reactions) catalog)"

definition get_benchmark_models ::
  "py_exception + model_info list \<Rightarrow> model_info list \<Rightarrow> int \<Rightarrow> int \<Rightarrow> int
     \<Rightarrow> py_exception + model_info list" where
  "get_benchmark_models fetched catalog min_reactions max_reactions limit =
     (case (if catalog = [] then fetched else Inr catalog) of
        Inl e \<Rightarrow> Inl e
      | Inr cat \<Rightarrow>
          (let filtered = size_filter min_reactions max_reactions cat
           in if int (length filtered) \<le> limit then Inr filtered
              else
                (case int_truediv (int (length filtered)) limit of
                   Inl e \<Rightarrow> Inl e
                 | Inr step \<Rightarrow> select_loop filtered step (py_range limit) [])))"

text \<open>
  The index the loop computes for \<open>i\<close> among \<open>n\<close> candidates, and the index of the
  specification, \<open>floor(i * n / limit)\<close> in exact arithmetic.
\<close>

definition float_index :: "nat \<Rightarrow> int \<Rightarrow> nat \<Rightarrow> nat" where
  "float_index n limit i =
     nat \<lfloor>fin_val (py_mul (Fin (real i)) (round_double (real n / of_int limit)))\<rfloor>"

definition spec_index :: "nat \<Rightarrow> int \<Rightarrow> nat \<Rightarrow> nat" where
  "spec_index n limit i = nat \<lfloor>real i * real n / of_int limit\<rfloor>"

text \<open>A catalog entry of size \<open>10 + k\<close>, to write test catalogs with.\<close>

abbreviation catalog_entry :: "nat \<Rightarrow> model_info" where
  "catalog_entry k \<equiv>
     \<lparr>bigg_id = ''m'', organism = ''o'', metabolite_count = 0,
      reaction_count = 10 + int k, gene_count = 0\<rparr>"

section \<open>Facts about rounding\<close>

lemma pow2_powr: "pow2 e = 2 powr (of_int e)"
  by (simp add: pow2_def powr_int)

lemma pow2_pos [simp]: "0 < pow2 e"
  by (simp add: pow2_powr)

lemma pow2_nonneg [simp]: "0 \<le> pow2 e"
  by (simp add: pow2_powr)

lemma pow2_neq0 [simp]: "pow2 e \<noteq> 0"
  by (simp add: pow2_powr)

lemma pow2_add: "pow2 (a + b) = pow2 a * pow2 b"
  by (simp add: pow2_powr powr_add)

lemma pow2_le_iff [simp]: "pow2 a \<le> pow2 b \<longleftrightarrow> a \<le> b"
  by (simp add: pow2_powr)

lemma pow2_less_iff [simp]: "pow2 a < pow2 b \<longleftrightarrow> a < b"
  by (simp add: pow2_powr)

lemma pow2_nat: "pow2 (int n) = 2 ^ n"
  by (simp add: pow2_def)

lemma pow2_of_int: "0 \<le> d \<Longrightarrow> pow2 d = of_int (2 ^ nat d)"
  by (simp add: pow2_def)

lemma pow2_diff: "pow2 (a - b) = pow2 a / pow2 b"
  by (simp add: pow2_powr powr_diff)

lemma ilog2_bounds:
  assumes "0 < x"
  shows "pow2 (ilog2 x) \<le> x \<and> x < pow2 (ilog2 x + 1)"
proof (cases "1 \<le> x")
  case True
  define n where "n = nat \<lfloor>x\<rfloor>"
  have n: "0 < n" using True by (simp add: n_def)
  have fl: "0 < floorlog 2 n" using n by (simp add: floorlog_def)
  have b: "2 ^ (floorlog 2 n - 1) \<le> n \<and> n < 2 ^ floorlog 2 n"
    using floorlog_bounds[of n 2] n by simp
  have i: "ilog2 x = int (floorlog 2 n - 1)"
    using True fl by (simp add: ilog2_def n_def)
  have nx: "real n \<le> x" "x < real n + 1"
    using True by (simp_all add: n_def)
  have "pow2 (ilog2 x) = 2 ^ (floorlog 2 n - 1)" by (simp add: i pow2_nat)
  also have "\<dots> \<le> real n" using b by (metis of_nat_le_iff of_nat_numeral of_nat_power)
  finally have lo: "pow2 (ilog2 x) \<le> x" using nx by linarith
  have "ilog2 x + 1 = int (floorlog 2 n)" using fl by (simp add: i)
  then have "pow2 (ilog2 x + 1) = 2 ^ floorlog 2 n" by (simp add: pow2_nat)
  moreover have "real n + 1 \<le> 2 ^ floorlog 2 n"
  proof -
    have "n + 1 \<le> 2 ^ floorlog 2 n" using b by simp
    then have "real (n + 1) \<le> real (2 ^ floorlog 2 n)" by (rule of_nat_mono)
    then show ?thesis by simp
  qed
  ultimately show ?thesis using lo nx by linarith
next
  case False
  define y where "y = 1 / x"
  define m where "m = nat (\<lceil>y\<rceil> - 1)"
  have y1: "1 < y" using False assms by (simp add: y_def)
  have c: "2 \<le> \<lceil>y\<rceil>" using y1 by linarith
  have m: "0 < m" using c by (simp add: m_def)
  have my: "real m < y" "y \<le> real m + 1"
    using c by (simp_all add: m_def) linarith+
  have fl: "0 < floorlog 2 m" using m by (simp add: floorlog_def)
  have b: "2 ^ (floorlog 2 m - 1) \<le> m \<and> m < 2 ^ floorlog 2 m"
    using floorlog_bounds[of m 2] m by simp
  have i: "ilog2 x = - int (floorlog 2 m)"
    using False by (simp add: ilog2_def m_def y_def)
  have r1: "real m + 1 \<le> 2 ^ floorlog 2 m"
  proof -
    have "m + 1 \<le> 2 ^ floorlog 2 m" using b by simp
    then have "real (m + 1) \<le> real (2 ^ floorlog 2 m)" by (rule of_nat_mono)
    then show ?thesis by simp
  qed
  have r2: "(2::real) ^ (floorlog 2 m - 1) \<le> real m"
    using b by (metis of_nat_le_iff of_nat_numeral of_nat_power)
  have p1: "pow2 (ilog2 x) = 1 / 2 ^ floorlog 2 m"
    by (simp add: i pow2_def)
  have p2: "pow2 (ilog2 x + 1) = 1 / 2 ^ (floorlog 2 m - 1)"
  proof -
    define j where "j = floorlog 2 m - 1"
    have "ilog2 x + 1 = - int j" using fl by (simp add: i j_def)
    then have "pow2 (ilog2 x + 1) = 1 / 2 ^ j" by (simp add: pow2_def)
    then show ?thesis by (simp add: j_def)
  qed
  have x: "x = 1 / y" by (simp add: y_def)
  have ypos: "0 < y" using y1 by simp
  have y2: "y \<le> 2 ^ floorlog 2 m" using my(2) r1 by linarith
  have y3: "(2::real) ^ (floorlog 2 m - 1) < y" using my(1) r2 by linarith
  have "1 / 2 ^ floorlog 2 m \<le> 1 / y"
    using y2 ypos by (simp add: frac_le)
  moreover have "1 / y < 1 / 2 ^ (floorlog 2 m - 1)"
    using y3 by (simp add: frac_less2)
  ultimately have "pow2 (ilog2 x) \<le> 1 / y \<and> 1 / y < pow2 (ilog2 x + 1)"
    unfolding p1 p2 by simp
  then show ?thesis unfolding y_def by simp
qed

lemma ilog2_eqI:
  assumes "pow2 k \<le> x" and "x < pow2 (k + 1)"
  shows "ilog2 x = k"
proof -
  have x: "0 < x" using assms(1) pow2_pos[of k] by linarith
  have b: "pow2 (ilog2 x) \<le> x" "x < pow2 (ilog2 x + 1)"
    using ilog2_bounds[OF x] by simp_all
  have "pow2 k < pow2 (ilog2 x + 1)" using assms(1) b(2) by linarith
  moreover have "pow2 (ilog2 x) < pow2 (k + 1)" using assms(2) b(1) by linarith
  ultimately show ?thesis by simp
qed

lemma ilog2_mono:
  assumes "0 < x" and "x \<le> y"
  shows "ilog2 x \<le> ilog2 y"
proof -
  have "pow2 (ilog2 x) \<le> x" using ilog2_bounds[OF assms(1)] by simp
  moreover have "y < pow2 (ilog2 y + 1)" using ilog2_bounds[of y] assms by simp
  ultimately have "pow2 (ilog2 x) < pow2 (ilog2 y + 1)" using assms(2) by linarith
  then show ?thesis by simp
qed

lemma round_half_even_of_int [simp]: "round_half_even (of_int n) = n"
  by (simp add: round_half_even_def)

lemma round_half_even_bounds:
  "of_int (round_half_even t) \<le> t + 1 / 2 \<and> t - 1 / 2 \<le> of_int (round_half_even t)"
proof -
  define f where "f = \<lfloor>t\<rfloor>"
  have a: "of_int f \<le> t" "t < of_int f + 1" unfolding f_def by linarith+
  have "round_half_even t = f \<and> t - of_int f \<le> 1 / 2
      \<or> round_half_even t = f + 1 \<and> 1 / 2 \<le> t - of_int f"
    unfolding round_half_even_def Let_def f_def[symmetric] by auto
  then show ?thesis using a by auto
qed

lemma round_half_even_le_int:
  assumes "t \<le> of_int n"
  shows "round_half_even t \<le> n"
proof -
  have f: "of_int \<lfloor>t\<rfloor> \<le> t" "t < of_int \<lfloor>t\<rfloor> + 1" by linarith+
  have fn: "\<lfloor>t\<rfloor> \<le> n" using assms by (simp add: floor_le_iff)
  show ?thesis
  proof (cases "\<lfloor>t\<rfloor> = n")
    case True
    then have "t = of_int n" using assms f by linarith
    then show ?thesis by simp
  next
    case False
    then have "\<lfloor>t\<rfloor> + 1 \<le> n" using fn by linarith
    then show ?thesis by (auto simp: round_half_even_def Let_def)
  qed
qed

lemma round_half_even_ge_int:
  assumes "of_int n \<le> t"
  shows "n \<le> round_half_even t"
proof -
  have "n \<le> \<lfloor>t\<rfloor>" using assms by (simp add: le_floor_iff)
  then show ?thesis by (auto simp: round_half_even_def Let_def)
qed

lemma round_half_even_mono:
  assumes "t \<le> s"
  shows "round_half_even t \<le> round_half_even s"
proof (cases "\<lfloor>t\<rfloor> = \<lfloor>s\<rfloor>")
  case True
  then show ?thesis using assms by (auto simp: round_half_even_def Let_def)
next
  case False
  have "\<lfloor>t\<rfloor> \<le> \<lfloor>s\<rfloor>" using assms by (rule floor_mono)
  then have "\<lfloor>t\<rfloor> + 1 \<le> \<lfloor>s\<rfloor>" using False by linarith
  moreover have "round_half_even t \<le> \<lfloor>t\<rfloor> + 1" by (auto simp: round_half_even_def Let_def)
  moreover have "\<lfloor>s\<rfloor> \<le> round_half_even s" by (auto simp: round_half_even_def Let_def)
  ultimately show ?thesis by linarith
qed

lemma round_mag_dexp: "round_mag a = of_int (round_half_even (a / pow2 (dexp a))) * pow2 (dexp a)"
  by (simp add: round_mag_def)

lemma dexp_mono: "0 < x \<Longrightarrow> x \<le> y \<Longrightarrow> dexp x \<le> dexp y"
  using ilog2_mono[of x y] by (simp add: dexp_def)

lemma round_mag_nonneg: "0 < a \<Longrightarrow> 0 \<le> round_mag a"
proof -
  assume a: "0 < a"
  have "(0::real) \<le> a / pow2 (dexp a)" using a by simp
  then have "0 \<le> round_half_even (a / pow2 (dexp a))"
    using round_half_even_ge_int[of 0 "a / pow2 (dexp a)"] by simp
  then show ?thesis by (simp add: round_mag_dexp)
qed

lemma round_mag_le_grid:
  assumes a: "0 < a" and le: "a \<le> of_int n * pow2 e" and e: "dexp a \<le> e"
  shows "round_mag a \<le> of_int n * pow2 e"
proof -
  define d where "d = e - dexp a"
  have d: "0 \<le> d" using e by (simp add: d_def)
  have pe: "pow2 e = of_int (2 ^ nat d) * pow2 (dexp a)"
    using pow2_add[of d "dexp a"] pow2_of_int[OF d] by (simp add: d_def)
  have "a / pow2 (dexp a) \<le> of_int n * pow2 e / pow2 (dexp a)"
    using le by (simp add: divide_right_mono)
  also have "\<dots> = of_int (n * 2 ^ nat d)" by (simp add: pe)
  finally have "round_half_even (a / pow2 (dexp a)) \<le> n * 2 ^ nat d"
    by (rule round_half_even_le_int)
  then have "(of_int (round_half_even (a / pow2 (dexp a))) :: real) \<le> of_int (n * 2 ^ nat d)"
    by (rule of_int_le_iff[THEN iffD2])
  then have "of_int (round_half_even (a / pow2 (dexp a))) * pow2 (dexp a)
               \<le> of_int (n * 2 ^ nat d) * pow2 (dexp a)"
    by (rule mult_right_mono) simp
  then show ?thesis by (simp add: round_mag_dexp pe)
qed

lemma round_mag_ge_grid:
  assumes a: "0 < a" and le: "of_int n * pow2 e \<le> a" and e: "dexp a \<le> e"
  shows "of_int n * pow2 e \<le> round_mag a"
proof -
  define d where "d = e - dexp a"
  have d: "0 \<le> d" using e by (simp add: d_def)
  have pe: "pow2 e = of_int (2 ^ nat d) * pow2 (dexp a)"
    using pow2_add[of d "dexp a"] pow2_of_int[OF d] by (simp add: d_def)
  have "of_int n * pow2 e / pow2 (dexp a) \<le> a / pow2 (dexp a)"
    using le by (simp add: divide_right_mono)
  moreover have "of_int n * pow2 e / pow2 (dexp a) = of_int (n * 2 ^ nat d)" by (simp add: pe)
  ultimately have "of_int (n * 2 ^ nat d) \<le> a / pow2 (dexp a)" by simp
  then have "n * 2 ^ nat d \<le> round_half_even (a / pow2 (dexp a))"
    by (rule round_half_even_ge_int)
  then have "(of_int (n * 2 ^ nat d) :: real) \<le> of_int (round_half_even (a / pow2 (dexp a)))"
    by (rule of_int_le_iff[THEN iffD2])
  then have "of_int (n * 2 ^ nat d) * pow2 (dexp a)
               \<le> of_int (round_half_even (a / pow2 (dexp a))) * pow2 (dexp a)"
    by (rule mult_right_mono) simp
  then show ?thesis by (simp add: round_mag_dexp pe)
qed

lemma dexp_le_ilog2: "0 < a \<Longrightarrow> - 1074 \<le> ilog2 a \<Longrightarrow> dexp a \<le> ilog2 a"
  by (simp add: dexp_def)

lemma round_mag_mono:
  assumes x: "0 < x" and xy: "x \<le> y"
  shows "round_mag x \<le> round_mag y"
proof (cases "dexp x = dexp y")
  case True
  have "x / pow2 (dexp y) \<le> y / pow2 (dexp y)" using xy by (simp add: divide_right_mono)
  then have "round_half_even (x / pow2 (dexp y)) \<le> round_half_even (y / pow2 (dexp y))"
    by (rule round_half_even_mono)
  then have "(of_int (round_half_even (x / pow2 (dexp y))) :: real)
               \<le> of_int (round_half_even (y / pow2 (dexp y)))"
    by (rule of_int_le_iff[THEN iffD2])
  then show ?thesis
    by (simp add: round_mag_dexp True mult_right_mono)
next
  case False
  have y: "0 < y" using x xy by linarith
  define k where "k = ilog2 y"
  have lt: "dexp x < dexp y" using dexp_mono[OF x xy] False by linarith
  have kx: "ilog2 x < k" using lt ilog2_mono[OF x xy] by (auto simp: dexp_def k_def)
  have ey: "dexp y = k - 52" and k: "- 1022 < k" using lt by (auto simp: dexp_def k_def)
  have ex: "dexp x \<le> k" using kx k by (auto simp: dexp_def)
  have "x < pow2 (ilog2 x + 1)" using ilog2_bounds[OF x] by simp
  also have "\<dots> \<le> pow2 k" using kx by simp
  finally have xk: "x \<le> of_int 1 * pow2 k" by simp
  have "pow2 k \<le> y" using ilog2_bounds[OF y] by (simp add: k_def)
  then have yk: "of_int 1 * pow2 k \<le> y" by simp
  have "dexp y \<le> k" by (simp add: ey)
  then have "of_int 1 * pow2 k \<le> round_mag y" using round_mag_ge_grid[OF y yk] by simp
  moreover have "round_mag x \<le> of_int 1 * pow2 k" using round_mag_le_grid[OF x xk ex] .
  ultimately show ?thesis by linarith
qed

lemma round_mag_exact:
  assumes n: "0 < n" "n < 2 ^ 53" and e: "- 1074 \<le> e"
  shows "round_mag (of_int n * pow2 e) = of_int n * pow2 e"
proof -
  define a where "a = of_int n * pow2 e"
  have a: "0 < a" using n by (simp add: a_def)
  have "a < 2 ^ 53 * pow2 e"
    using n(2) by (simp add: a_def)
  also have "\<dots> = pow2 (53 + e)"
    using pow2_add[of 53 e] by (simp add: pow2_def)
  finally have "a < pow2 (53 + e)" .
  moreover have "pow2 (ilog2 a) \<le> a" using ilog2_bounds[OF a] by simp
  ultimately have "pow2 (ilog2 a) < pow2 (53 + e)" by linarith
  then have "ilog2 a - 52 \<le> e" by simp
  then have d: "dexp a \<le> e" using e by (simp add: dexp_def)
  have "round_mag a \<le> of_int n * pow2 e"
    using round_mag_le_grid[OF a _ d, of n] by (simp add: a_def)
  moreover have "of_int n * pow2 e \<le> round_mag a"
    using round_mag_ge_grid[OF a _ d, of n] by (simp add: a_def)
  ultimately show ?thesis by (simp add: a_def)
qed

lemma round_mag_error:
  assumes a: "0 < a" and k: "- 1022 \<le> ilog2 a"
  shows "\<bar>round_mag a - a\<bar> \<le> a * pow2 (- 53)"
proof -
  have d: "dexp a = ilog2 a - 52" using k by (simp add: dexp_def)
  define t where "t = a / pow2 (dexp a)"
  have at: "a = t * pow2 (dexp a)" by (simp add: t_def)
  have "\<bar>of_int (round_half_even t) - t\<bar> \<le> 1 / 2"
    using round_half_even_bounds[of t] by linarith
  then have "\<bar>of_int (round_half_even t) - t\<bar> * pow2 (dexp a) \<le> 1 / 2 * pow2 (dexp a)"
    by (rule mult_right_mono) simp
  moreover have "round_mag a - a = (of_int (round_half_even t) - t) * pow2 (dexp a)"
    by (simp add: round_mag_dexp t_def algebra_simps)
  ultimately have "\<bar>round_mag a - a\<bar> \<le> 1 / 2 * pow2 (dexp a)"
    by (simp add: abs_mult)
  also have "1 / 2 * pow2 (dexp a) = pow2 (ilog2 a) * pow2 (- 53)"
    using pow2_add[of "ilog2 a" "- 53"] pow2_add[of "-1" "dexp a"]
    by (simp add: d pow2_def)
  also have "\<dots> \<le> a * pow2 (- 53)"
    using ilog2_bounds[OF a] by (simp add: mult_right_mono)
  finally show ?thesis .
qed

lemma round_double_pos:
  assumes "0 < x"
  shows "round_double x = (if 2 ^ 1024 \<le> round_mag x then PInf else Fin (round_mag x))"
  using assms by (simp add: round_double_def Let_def)

lemma round_double_neg:
  assumes "x < 0"
  shows "round_double x =
           (if 2 ^ 1024 \<le> round_mag (- x) then NInf
            else if round_mag (- x) = 0 then NegZero else Fin (- round_mag (- x)))"
  using assms by (simp add: round_double_def Let_def)

lemma round_double_of_int:
  assumes "\<bar>k\<bar> < 2 ^ 53"
  shows "round_double (of_int k) = Fin (of_int k)"
proof -
  have big: "(2::real) ^ 53 \<le> 2 ^ 1024" by (rule power_increasing) simp_all
  have m: "round_mag (of_int n) = of_int n" "of_int n < (2::real) ^ 1024"
    if "0 < n" "n < 2 ^ 53" for n :: int
  proof -
    show "round_mag (of_int n) = of_int n"
      using round_mag_exact[OF that, of 0] by (simp add: pow2_def)
    have "(of_int n :: real) < of_int (2 ^ 53)" using that(2) by (simp only: of_int_less_iff)
    then show "of_int n < (2::real) ^ 1024" using big by simp
  qed
  consider "k = 0" | "0 < k" | "k < 0" by linarith
  then show ?thesis
  proof cases
    case 1
    then show ?thesis by (simp add: round_double_def)
  next
    case 2
    then have "k < 2 ^ 53" using assms by simp
    from m[OF 2 this] 2 show ?thesis by (simp add: round_double_pos)
  next
    case 3
    then have "0 < - k" "- k < 2 ^ 53" using assms by simp_all
    from m[OF this] 3 show ?thesis
      using round_double_neg[of "of_int k"] by simp
  qed
qed

lemma round_double_mono:
  assumes "x \<le> y"
  shows "py_le (round_double x) (round_double y)"
proof -
  have p: "0 \<le> round_mag a" if "0 < a" for a using that by (rule round_mag_nonneg)
  consider "x = 0" "y = 0" | "x = 0" "0 < y" | "x < 0" "y = 0" | "x < 0" "0 < y"
    | "0 < x" "0 < y" | "x < 0" "y < 0"
    using assms by linarith
  then show ?thesis
  proof cases
    case 1
    then show ?thesis by (simp add: round_double_def py_le_def py_lt_def)
  next
    case 2
    then show ?thesis using p[of y]
      by (simp add: round_double_pos round_double_def[of 0] py_le_def py_lt_def)
  next
    case 3
    then show ?thesis using p[of "- x"]
      by (simp add: round_double_neg round_double_def[of 0] py_le_def py_lt_def)
  next
    case 4
    then show ?thesis using p[of "- x"] p[of y]
      by (simp add: round_double_neg round_double_pos py_le_def py_lt_def)
  next
    case 5
    then show ?thesis using round_mag_mono[of x y] assms
      by (simp add: round_double_pos py_le_def py_lt_def)
  next
    case 6
    then show ?thesis using round_mag_mono[of "- y" "- x"] assms p[of "- x"] p[of "- y"]
      by (auto simp: round_double_neg py_le_def py_lt_def)
  qed
qed

text \<open>A way to compute the double next to a given positive number.\<close>

lemma round_double_eqI:
  assumes "pow2 k \<le> x" and "x < pow2 (k + 1)" and "- 1022 \<le> k" and "k < 1023"
    and "round_half_even (x / pow2 (k - 52)) = m"
  shows "round_double x = Fin (of_int m * pow2 (k - 52))"
proof -
  have x: "0 < x" using assms(1) pow2_pos[of k] by linarith
  have i: "ilog2 x = k" using assms(1,2) by (rule ilog2_eqI)
  have d: "dexp x = k - 52" using assms(3) by (simp add: dexp_def i)
  have v: "round_mag x = of_int m * pow2 (k - 52)"
    by (simp add: round_mag_def d assms(5))
  have "x \<le> of_int 1 * pow2 (k + 1)" using assms(2) by simp
  then have "round_mag x \<le> of_int 1 * pow2 (k + 1)"
    by (rule round_mag_le_grid[OF x]) (simp add: d)
  also have "\<dots> \<le> pow2 1023" using assms(4) by simp
  also have "\<dots> < 2 ^ 1024" by (simp add: pow2_def)
  finally have "round_mag x < 2 ^ 1024" .
  then show ?thesis using x by (simp add: round_double_pos v)
qed

section \<open>Constraint application: what the call returns\<close>


lemma rid_override [simp]: "rid (override_reaction b r) = rid r"
  by (simp add: override_reaction_def)












lemma has_gene_knock_out [simp]: "has_gene (knock_out g m) h = has_gene m h"
proof -
  have "map gid (map (\<lambda>x. if gid x = g then x\<lparr>functional := False\<rparr> else x) (genes m)) = map gid (genes m)"
    by (induction "genes m") auto
  then show ?thesis by (simp add: has_gene_def knock_out_def Let_def del: set_map map_map)
qed

lemma present_genes_knock_out [simp]: "present_genes (knock_out g m) ks = present_genes m ks"
  by (simp add: present_genes_def)

lemma zero_bounds_props [simp]:
  "gpr (zero_bounds r) = gpr r" "rid (zero_bounds r) = rid r"
  "zero_bounds (zero_bounds r) = zero_bounds r"
  by (simp_all add: zero_bounds_def)




lemma gpr_override_all [simp]: "gpr (override_all cs r) = gpr r"
  by (simp add: override_all_def override_reaction_def split: option.splits)









section \<open>Stratified sampling of the catalog\<close>

lemma select_loop_eq:
  assumes "\<And>i. i \<in> set xs \<Longrightarrow>
             \<exists>fi. float_of_int i = Inr fi \<and> int_of_float (py_mul fi step) = Inr (int (g i))
                  \<and> g i < length filtered"
  shows "select_loop filtered step xs acc = Inr (acc @ map (\<lambda>i. filtered ! g i) xs)"
  using assms
proof (induction xs arbitrary: acc)
  case Nil
  then show ?case by simp
next
  case (Cons i xs)
  obtain fi where f: "float_of_int i = Inr fi" "int_of_float (py_mul fi step) = Inr (int (g i))"
      "g i < length filtered"
    using Cons.prems[of i] by auto
  have ix: "py_index filtered (int (g i)) = Inr (filtered ! g i)"
    using f(3) by (simp add: py_index_def)
  have "select_loop filtered step xs (acc @ [filtered ! g i])
          = Inr ((acc @ [filtered ! g i]) @ map (\<lambda>i. filtered ! g i) xs)"
    by (rule Cons.IH) (use Cons.prems in auto)
  then show ?case by (simp add: f ix)
qed

lemma ilog2_ge0: "1 \<le> x \<Longrightarrow> 0 \<le> ilog2 x"
proof -
  assume "1 \<le> x"
  then have "ilog2 1 \<le> ilog2 x" by (intro ilog2_mono) simp_all
  moreover have "ilog2 1 = 0" by (rule ilog2_eqI) (simp_all add: pow2_def)
  ultimately show ?thesis by simp
qed

lemma round_mag_upper:
  assumes "1 \<le> a"
  shows "round_mag a \<le> a * (1 + pow2 (- 53))"
proof -
  have "\<bar>round_mag a - a\<bar> \<le> a * pow2 (- 53)"
    using assms ilog2_ge0[OF assms] by (intro round_mag_error) simp_all
  then show ?thesis by (simp add: algebra_simps abs_le_iff)
qed

lemma round_mag_ge1:
  assumes "1 \<le> a" and "a < 2 ^ 52"
  shows "1 \<le> round_mag a"
proof -
  have a: "0 < a" using assms by simp
  have "pow2 (ilog2 a) \<le> a" using ilog2_bounds[OF a] by simp
  also have "a < pow2 52" using assms(2) by (simp add: pow2_def)
  finally have "ilog2 a < 52" by simp
  then have d: "dexp a \<le> 0" by (simp add: dexp_def)
  have "of_int 1 * pow2 0 \<le> round_mag a"
    by (rule round_mag_ge_grid[OF a _ d]) (use assms in \<open>simp add: pow2_def\<close>)
  then show ?thesis by (simp add: pow2_def)
qed

lemma sampling_step:
  assumes l: "0 < l" "l < int n" and n: "n < 2 ^ 51"
  defines "x \<equiv> real n / of_int l"
  shows "round_double x = Fin (round_mag x)" and "int_truediv (int n) l = Inr (Fin (round_mag x))"
    and "1 \<le> round_mag x" and "round_mag x \<le> x * (1 + pow2 (- 53))" and "1 < x"
proof -
  have L: "0 < real_of_int l" "real_of_int l < real n" using l by simp_all
  have N: "real n < 2 ^ 51"
  proof -
    have "real n < real (2 ^ 51)" using n by (simp only: of_nat_less_iff)
    then show ?thesis by simp
  qed
  show x1: "1 < x" using L by (simp add: x_def)
  have "x \<le> real n" using L x1 by (simp add: x_def divide_le_eq)
  then have x51: "x < 2 ^ 51" using N by linarith
  show up: "round_mag x \<le> x * (1 + pow2 (- 53))" using x1 by (intro round_mag_upper) simp
  show ge: "1 \<le> round_mag x" using x1 x51 by (intro round_mag_ge1) simp_all
  have "x * (1 + pow2 (- 53)) \<le> x * 2" by (intro mult_left_mono) (use x1 in \<open>simp_all add: pow2_def\<close>)
  then have "round_mag x < 2 ^ 52" using up x51 by simp
  also have "(2::real) ^ 52 \<le> 2 ^ 1024" by (rule power_increasing) simp_all
  finally have fin: "round_mag x < 2 ^ 1024" .
  show r: "round_double x = Fin (round_mag x)" using x1 fin by (simp add: round_double_pos)
  have "n \<noteq> 0" using l by auto
  then show "int_truediv (int n) l = Inr (Fin (round_mag x))"
    using l r by (simp add: int_truediv_def Let_def x_def is_inf_def)
qed

lemma sampling_product:
  assumes l: "0 < l" "l < int n" and n: "n < 2 ^ 51" and i: "i < nat l"
  defines "s \<equiv> round_mag (real n / of_int l)"
  defines "p \<equiv> (if i = 0 then 0 else round_mag (real i * s))"
  shows "py_mul (Fin (real i)) (Fin s) = Fin p" and "0 \<le> p" and "p < real n"
proof -
  note st = sampling_step[OF l n]
  have s1: "1 \<le> s" using st(3) by (simp add: s_def)
  have N: "real n < 2 ^ 51"
  proof -
    have "real n < real (2 ^ 51)" using n by (simp only: of_nat_less_iff)
    then show ?thesis by simp
  qed
  have L: "0 < real_of_int l" "real_of_int l < real n" using l by simp_all
  show p0: "0 \<le> p"
  proof (cases "i = 0")
    case True
    then show ?thesis by (simp add: p_def)
  next
    case False
    then have "0 < real i * s" using s1 by simp
    then show ?thesis using False by (simp add: p_def round_mag_nonneg)
  qed
  show pn: "p < real n"
  proof (cases "i = 0")
    case True
    then show ?thesis using L by (simp add: p_def)
  next
    case False
    define y where "y = real i * s"
    define c :: real where "c = 1 + pow2 (- 53)"
    have c: "1 \<le> c" "0 \<le> c" by (simp_all add: c_def)
    have i1: "1 \<le> real i" using False by simp
    have y1: "1 \<le> y" using i1 s1 unfolding y_def by (metis mult_mono mult_1 zero_le_one order_trans)
    have iL: "real i \<le> real_of_int l - 1" using i l by linarith
    have "p = round_mag y" using False by (simp add: p_def y_def)
    also have "\<dots> \<le> y * c" unfolding c_def using y1 by (rule round_mag_upper)
    also have "y * c \<le> ((real_of_int l - 1) * (real n / real_of_int l * c)) * c"
    proof -
      have "s \<le> real n / real_of_int l * c" using st(4) by (simp add: s_def c_def)
      then have "y \<le> (real_of_int l - 1) * (real n / real_of_int l * c)"
        unfolding y_def using iL s1 by (intro mult_mono) simp_all
      then show ?thesis using c by (intro mult_right_mono) simp_all
    qed
    also have "\<dots> = ((real_of_int l - 1) * (c * c)) * (real n / real_of_int l)"
      by (simp only: mult_ac)
    also have "\<dots> < real_of_int l * (real n / real_of_int l)"
    proof -
      have "real_of_int l < 2 ^ 51" using L N by linarith
      then have "(real_of_int l - 1) * (c * c) < real_of_int l"
        by (simp add: c_def pow2_def algebra_simps)
      moreover have "0 < real n / real_of_int l" using L by simp
      ultimately show ?thesis by (rule mult_strict_right_mono)
    qed
    also have "\<dots> = real n" using L by simp
    finally show ?thesis .
  qed
  show "py_mul (Fin (real i)) (Fin s) = Fin p"
  proof (cases "i = 0")
    case True
    then show ?thesis using s1 by (simp add: py_mul_def p_def is_inf_def)
  next
    case False
    then have y: "0 < real i * s" using s1 by simp
    have "p < 2 ^ 51" using pn N by linarith
    also have "(2::real) ^ 51 \<le> 2 ^ 1024" by (rule power_increasing) simp_all
    finally have "round_mag (real i * s) < 2 ^ 1024" using False by (simp add: p_def)
    then have "round_double (real i * s) = Fin p"
      using y False by (simp add: round_double_pos p_def)
    then show ?thesis using y False s1 by (simp add: py_mul_def is_inf_def)
  qed
qed

lemma float_index_eq:
  assumes l: "0 < l" "l < int n" and n: "n < 2 ^ 51" and i: "i < nat l"
  shows "float_index n l i =
           nat \<lfloor>if i = 0 then 0 else round_mag (real i * round_mag (real n / of_int l))\<rfloor>"
  using sampling_product(1)[OF assms] sampling_step(1)[OF l n]
  by (simp add: float_index_def)

lemma float_index_less:
  assumes l: "0 < l" "l < int n" and n: "n < 2 ^ 51" and i: "i < nat l"
  shows "float_index n l i < n"
proof -
  define p where "p = (if i = 0 then 0 else round_mag (real i * round_mag (real n / of_int l)))"
  have p: "0 \<le> p" "p < real n" using sampling_product(2,3)[OF assms] by (simp_all add: p_def)
  have "\<lfloor>p\<rfloor> < int n" using p(2) by (simp add: floor_less_iff)
  moreover have "0 \<le> \<lfloor>p\<rfloor>" using p(1) by simp
  ultimately have "nat \<lfloor>p\<rfloor> < n" by linarith
  then show ?thesis using float_index_eq[OF assms] by (simp add: p_def)
qed

lemma float_index_mono:
  assumes l: "0 < l" "l < int n" and n: "n < 2 ^ 51" and j: "j < nat l" and ij: "i \<le> j"
  shows "float_index n l i \<le> float_index n l j"
proof -
  define s where "s = round_mag (real n / of_int l)"
  have s1: "1 \<le> s" using sampling_step(3)[OF l n] by (simp add: s_def)
  have i: "i < nat l" using j ij by simp
  define p where "p k = (if k = 0 then 0 else round_mag (real k * s))" for k :: nat
  have "p i \<le> p j"
  proof (cases "i = 0")
    case True
    then show ?thesis using sampling_product(2)[OF l n j]
      by (simp add: p_def s_def split: if_splits)
  next
    case False
    then have "0 < real i * s" using s1 by simp
    moreover have "real i * s \<le> real j * s" using ij s1 by (intro mult_right_mono) simp_all
    ultimately have "round_mag (real i * s) \<le> round_mag (real j * s)" by (rule round_mag_mono)
    then show ?thesis using False ij by (simp add: p_def)
  qed
  then have "nat \<lfloor>p i\<rfloor> \<le> nat \<lfloor>p j\<rfloor>" by (intro nat_mono floor_mono)
  moreover have "float_index n l i = nat \<lfloor>p i\<rfloor>"
    unfolding p_def s_def by (rule float_index_eq[OF l n i])
  moreover have "float_index n l j = nat \<lfloor>p j\<rfloor>"
    unfolding p_def s_def by (rule float_index_eq[OF l n j])
  ultimately show ?thesis by simp
qed

lemma select_loop_sampling:
  assumes l: "0 < l" "l < int (length filtered)" and n: "length filtered < 2 ^ 51"
  shows "select_loop filtered (Fin (round_mag (real (length filtered) / of_int l))) (py_range l) []
           = Inr (map (\<lambda>i. filtered ! float_index (length filtered) l i) [0..<nat l])"
proof -
  define nn where "nn = length filtered"
  define s where "s = round_mag (real nn / of_int l)"
  have "select_loop filtered (Fin s) (py_range l) []
          = Inr ([] @ map (\<lambda>j. filtered ! float_index nn l (nat j)) (py_range l))"
  proof (rule select_loop_eq)
    fix j assume "j \<in> set (py_range l)"
    then obtain i where i: "j = int i" "i < nat l" by (auto simp: py_range_def)
    have b: "\<bar>int i\<bar> < 2 ^ 53"
    proof -
      have "i < 2 ^ 51" using i(2) l n by linarith
      also have "(2::nat) ^ 51 < 2 ^ 53" by simp
      finally show ?thesis by simp
    qed
    have f: "float_of_int j = Inr (Fin (real i))"
      using round_double_of_int[OF b] by (simp add: float_of_int_def i(1) is_inf_def)
    define p where "p = (if i = 0 then 0 else round_mag (real i * s))"
    have pm: "py_mul (Fin (real i)) (Fin s) = Fin p" and p0: "0 \<le> p"
      unfolding p_def s_def nn_def
      by (rule sampling_product[OF l n i(2)])+
    have fi: "float_index nn l i = nat \<lfloor>p\<rfloor>"
      unfolding p_def s_def nn_def by (rule float_index_eq[OF l n i(2)])
    have "int_of_float (py_mul (Fin (real i)) (Fin s)) = Inr (int (float_index nn l (nat j)))"
      using p0 unfolding pm i(1) by (simp add: fi)
    moreover have "float_index nn l (nat j) < length filtered"
      using float_index_less[OF l n i(2)] by (simp add: i(1) nn_def)
    ultimately show "\<exists>fi. float_of_int j = Inr fi
        \<and> int_of_float (py_mul fi (Fin s)) = Inr (int (float_index nn l (nat j)))
        \<and> float_index nn l (nat j) < length filtered"
      using f by simp
  qed
  then show ?thesis by (simp add: py_range_def comp_def s_def nn_def)
qed

lemma get_benchmark_models_eq:
  assumes src: "(if catalog = [] then fetched else Inr catalog) = Inr cat"
    and l: "0 < limit" "limit < int (length (size_filter lo hi cat))"
    and n: "length (size_filter lo hi cat) < 2 ^ 51"
  shows "get_benchmark_models fetched catalog lo hi limit =
           Inr (map (\<lambda>i. size_filter lo hi cat ! float_index (length (size_filter lo hi cat)) limit i)
                  [0..<nat limit])"
  using l select_loop_sampling[OF l n] sampling_step(2)[OF l n]
  by (simp add: get_benchmark_models_def src Let_def)

lemma get_benchmark_models_whole:
  assumes src: "(if catalog = [] then fetched else Inr catalog) = Inr cat"
    and l: "int (length (size_filter lo hi cat)) \<le> limit"
  shows "get_benchmark_models fetched catalog lo hi limit = Inr (size_filter lo hi cat)"
  using l by (simp add: get_benchmark_models_def src Let_def)

lemma get_benchmark_models_zero:
  assumes src: "(if catalog = [] then fetched else Inr catalog) = Inr cat"
    and l: "size_filter lo hi cat \<noteq> []"
  shows "get_benchmark_models fetched catalog lo hi 0 = Inl ZeroDivisionError"
  using l by (simp add: get_benchmark_models_def src Let_def int_truediv_def)

lemma round_double_finite:
  assumes "\<bar>x\<bar> \<le> 2 ^ 52"
  shows "\<not> is_inf (round_double x)"
proof -
  have m: "round_mag a < 2 ^ 1024" if "0 < a" "a \<le> 2 ^ 52" for a
  proof -
    have "pow2 (ilog2 a) \<le> a" using ilog2_bounds[OF that(1)] by simp
    also have "a < pow2 53" using that(2) by (simp add: pow2_def)
    finally have "ilog2 a < 53" by simp
    then have d: "dexp a \<le> 0" by (simp add: dexp_def)
    have "round_mag a \<le> of_int (2 ^ 52) * pow2 0"
      by (rule round_mag_le_grid[OF that(1) _ d]) (use that(2) in \<open>simp add: pow2_def\<close>)
    also have "\<dots> < 2 ^ 1024" by (simp add: pow2_def)
    finally show ?thesis .
  qed
  consider "x = 0" | "0 < x" | "x < 0" by linarith
  then show ?thesis
  proof cases
    case 1
    then show ?thesis by (simp add: round_double_def is_inf_def)
  next
    case 2
    then show ?thesis using m[of x] assms by (simp add: round_double_pos is_inf_def)
  next
    case 3
    then show ?thesis using m[of "- x"] assms by (simp add: round_double_neg is_inf_def)
  qed
qed

lemma get_benchmark_models_negative:
  assumes src: "(if catalog = [] then fetched else Inr catalog) = Inr cat"
    and l: "limit < 0" and n: "length (size_filter lo hi cat) < 2 ^ 51"
  shows "get_benchmark_models fetched catalog lo hi limit = Inr []"
proof -
  define nn where "nn = length (size_filter lo hi cat)"
  have r: "py_range limit = []" using l by (simp add: py_range_def)
  have N: "real nn < 2 ^ 51"
  proof -
    have "real nn < real (2 ^ 51)" using n by (simp only: of_nat_less_iff nn_def)
    then show ?thesis by simp
  qed
  have L: "1 \<le> \<bar>real_of_int limit\<bar>" using l by linarith
  have "\<bar>real nn / real_of_int limit\<bar> = real nn / \<bar>real_of_int limit\<bar>" by simp
  also have "\<dots> \<le> real nn / 1" using L by (intro divide_left_mono) simp_all
  finally have "\<bar>real nn / real_of_int limit\<bar> \<le> 2 ^ 52" using N by simp
  then have "\<not> is_inf (round_double (real nn / real_of_int limit))"
    by (rule round_double_finite)
  then have "\<exists>s. int_truediv (int nn) limit = Inr s"
    using l by (simp add: int_truediv_def Let_def)
  then show ?thesis
    using l by (auto simp: get_benchmark_models_def src Let_def r nn_def)
qed

lemma sorted_size_filter: "sorted (map reaction_count (size_filter lo hi cat))"
  by (simp add: size_filter_def)

lemma size_filter_id:
  assumes "\<And>m. m \<in> set cat \<Longrightarrow> lo \<le> reaction_count m \<and> reaction_count m \<le> hi"
    and "sorted (map reaction_count cat)"
  shows "size_filter lo hi cat = cat"
proof -
  have "filter (\<lambda>m. lo \<le> reaction_count m \<and> reaction_count m \<le> hi) cat = cat"
    using assms(1) by (simp add: filter_id_conv)
  then show ?thesis using assms(2) by (simp add: size_filter_def sort_key_id_if_sorted)
qed

lemma sorted_selection:
  assumes s: "sorted (map f xs)"
    and m: "\<And>i j. i \<le> j \<Longrightarrow> j < k \<Longrightarrow> g i \<le> g j"
    and r: "\<And>i. i < k \<Longrightarrow> g i < length xs"
  shows "sorted (map f (map (\<lambda>i. xs ! g i) [0..<k]))"
proof -
  have "f (xs ! g i) \<le> f (xs ! g j)" if "i \<le> j" "j < k" for i j
  proof -
    have "g i \<le> g j" "g j < length xs" using that m r by auto
    then have "map f xs ! g i \<le> map f xs ! g j"
      using s by (intro sorted_nth_mono) simp_all
    then show ?thesis using \<open>g i \<le> g j\<close> \<open>g j < length xs\<close> by simp
  qed
  then show ?thesis by (simp add: sorted_iff_nth_mono comp_def)
qed

lemma strict_selection:
  assumes s: "sorted (map f xs)" and d: "distinct (map f xs)"
    and m: "\<And>i j. i < j \<Longrightarrow> j < k \<Longrightarrow> g i < g j"
    and r: "\<And>i. i < k \<Longrightarrow> g i < length xs"
  shows "sorted_wrt (<) (map f (map (\<lambda>i. xs ! g i) [0..<k]))"
proof -
  have ss: "sorted_wrt (<) (map f xs)" using s d by (simp add: strict_sorted_iff)
  have "f (xs ! g i) < f (xs ! g j)" if "i < j" "j < k" for i j
  proof -
    have "g i < g j" "g j < length xs" using that m r by auto
    then have "map f xs ! g i < map f xs ! g j"
      using ss by (intro sorted_wrt_nth_less) simp_all
    then show ?thesis using \<open>g i < g j\<close> \<open>g j < length xs\<close> by simp
  qed
  then show ?thesis by (simp add: sorted_wrt_iff_nth_less comp_def)
qed

lemma float_index_1000:
  assumes "i < 100"
  shows "float_index 1000 100 i = 10 * i"
proof -
  have s: "round_double (real 1000 / of_int 100) = Fin 10"
    using round_double_of_int[of 10] by simp
  have b: "\<bar>int (i * 10)\<bar> < 2 ^ 53" using assms by simp
  have p: "py_mul (Fin (real i)) (Fin 10) = Fin (real (i * 10))"
  proof (cases "i = 0")
    case True
    then show ?thesis by (simp add: py_mul_def is_inf_def)
  next
    case False
    then show ?thesis using round_double_of_int[OF b] by (simp add: py_mul_def is_inf_def)
  qed
  have "\<lfloor>real (i * 10)\<rfloor> = int (i * 10)" by (simp only: floor_of_nat)
  then show ?thesis unfolding float_index_def s p by simp
qed

text \<open>
  C9, as the code has it. The candidates are the catalog entries within the size range,
  in ascending order of size (entries of equal size in catalog order). When there are
  at most \<open>limit\<close> of them, all are returned. When there are more, and \<open>limit\<close> is
  positive, entry \<open>i\<close> of the result is the candidate at the index that the float
  computation \<open>int(i * (n / limit))\<close> gives, for \<open>i = 0 .. limit - 1\<close>; that index is
  within the list, and the sizes of the selection never decrease. For 1000 candidates and
  \<open>limit = 100\<close> the indices are \<open>0, 10, .., 990\<close>, and the sizes increase strictly when
  no two candidates have the same size. With \<open>limit = 0\<close> and at least one candidate the
  call raises \<open>ZeroDivisionError\<close>; with a negative \<open>limit\<close> it returns the empty list.
  (Lists of fewer than \<open>2^51\<close> candidates.)
\<close>

theorem get_benchmark_models_selection:
  fixes limit :: int
  assumes "(if catalog = [] then fetched else Inr catalog) = Inr cat"
    and "length (size_filter lo hi cat) < 2 ^ 51"
  defines "filtered \<equiv> size_filter lo hi cat"
  defines "n \<equiv> length (size_filter lo hi cat)"
  defines "res \<equiv> get_benchmark_models fetched catalog lo hi limit"
  shows "sorted (map reaction_count filtered)
    \<and> (int n \<le> limit \<longrightarrow> res = Inr filtered)
    \<and> (0 < limit \<and> limit < int n \<longrightarrow>
          res = Inr (map (\<lambda>i. filtered ! float_index n limit i) [0..<nat limit])
          \<and> (\<forall>i < nat limit. float_index n limit i < n)
          \<and> sorted (map reaction_count (map (\<lambda>i. filtered ! float_index n limit i) [0..<nat limit])))
    \<and> (n = 1000 \<and> limit = 100 \<longrightarrow>
          res = Inr (map (\<lambda>i. filtered ! (10 * i)) [0..<100])
          \<and> (distinct (map reaction_count filtered) \<longrightarrow>
                sorted_wrt (<) (map reaction_count (map (\<lambda>i. filtered ! (10 * i)) [0..<100]))))
    \<and> (limit = 0 \<and> filtered \<noteq> [] \<longrightarrow> res = Inl ZeroDivisionError)
    \<and> (limit < 0 \<longrightarrow> res = Inr [])"
proof -
  have c1: "sorted (map reaction_count filtered)"
    unfolding filtered_def by (rule sorted_size_filter)
  have c2: "res = Inr filtered" if "int n \<le> limit"
    unfolding res_def filtered_def
    by (rule get_benchmark_models_whole[OF assms(1)]) (use that in \<open>simp add: n_def\<close>)
  have c3: "res = Inr (map (\<lambda>i. filtered ! float_index n limit i) [0..<nat limit])
          \<and> (\<forall>i < nat limit. float_index n limit i < n)
          \<and> sorted (map reaction_count (map (\<lambda>i. filtered ! float_index n limit i) [0..<nat limit]))"
    if l: "0 < limit" "limit < int n"
  proof -
    have l': "limit < int (length (size_filter lo hi cat))" using l by (simp add: n_def)
    have a: "res = Inr (map (\<lambda>i. filtered ! float_index n limit i) [0..<nat limit])"
      unfolding res_def filtered_def n_def
      by (rule get_benchmark_models_eq[OF assms(1) l(1) l' assms(2)])
    have b: "float_index n limit i < n" if "i < nat limit" for i
      unfolding n_def by (rule float_index_less[OF l(1) l' assms(2) that])
    have m: "float_index n limit i \<le> float_index n limit j" if "i \<le> j" "j < nat limit" for i j
      unfolding n_def by (rule float_index_mono[OF l(1) l' assms(2) that(2) that(1)])
    have "sorted (map reaction_count (map (\<lambda>i. filtered ! float_index n limit i) [0..<nat limit]))"
      by (rule sorted_selection[OF c1 m]) (use b in \<open>simp_all add: filtered_def n_def\<close>)
    then show ?thesis using a b by simp
  qed
  have c4: "res = Inr (map (\<lambda>i. filtered ! (10 * i)) [0..<100])
          \<and> (distinct (map reaction_count filtered) \<longrightarrow>
                sorted_wrt (<) (map reaction_count (map (\<lambda>i. filtered ! (10 * i)) [0..<100])))"
    if h: "n = 1000" "limit = 100"
  proof -
    have "res = Inr (map (\<lambda>i. filtered ! float_index n limit i) [0..<nat limit])"
      using c3 h by simp
    also have "map (\<lambda>i. filtered ! float_index n limit i) [0..<nat limit]
               = map (\<lambda>i. filtered ! (10 * i)) [0..<100]"
      unfolding h by (rule map_cong) (simp_all add: float_index_1000)
    finally have a: "res = Inr (map (\<lambda>i. filtered ! (10 * i)) [0..<100])" .
    have "sorted_wrt (<) (map reaction_count (map (\<lambda>i. filtered ! (10 * i)) [0..<100]))"
      if "distinct (map reaction_count filtered)"
      by (rule strict_selection[OF c1 that]) (use h in \<open>simp_all add: filtered_def n_def\<close>)
    then show ?thesis using a by simp
  qed
  have c5: "res = Inl ZeroDivisionError" if "limit = 0" "filtered \<noteq> []"
    unfolding res_def that(1)
    by (rule get_benchmark_models_zero[OF assms(1)]) (use that in \<open>simp add: filtered_def\<close>)
  have c6: "res = Inr []" if "limit < 0"
    unfolding res_def by (rule get_benchmark_models_negative[OF assms(1) that assms(2)])
  show ?thesis using c1 c2 c3 c4 c5 c6 by blast
qed

lemma round_double_exact:
  assumes "0 < n" and "n < 2 ^ 53" and "- 1074 \<le> e" and "e \<le> 970"
  shows "round_double (of_int n * pow2 e) = Fin (of_int n * pow2 e)"
proof -
  have v: "round_mag (of_int n * pow2 e) = of_int n * pow2 e"
    using assms(1-3) by (rule round_mag_exact)
  have "(of_int n :: real) < of_int (2 ^ 53)" using assms(2) by (simp only: of_int_less_iff)
  then have "of_int n * pow2 e < of_int (2 ^ 53) * pow2 e" by simp
  also have "\<dots> \<le> of_int (2 ^ 53) * pow2 970" using assms(4) by (intro mult_left_mono) simp_all
  also have "\<dots> < 2 ^ 1024" by (simp add: pow2_def)
  finally have "of_int n * pow2 e < 2 ^ 1024" .
  moreover have "0 < of_int n * pow2 e" using assms(1) by simp
  ultimately show ?thesis by (simp add: round_double_pos v)
qed

lemma catalog_entries_filtered:
  assumes "k \<le> 4990"
  shows "size_filter 10 5000 (map catalog_entry [0..<k]) = map catalog_entry [0..<k]"
proof (rule size_filter_id)
  show "sorted (map reaction_count (map catalog_entry [0..<k]))"
    by (simp add: sorted_iff_nth_mono comp_def)
  show "10 \<le> reaction_count m \<and> reaction_count m \<le> 5000"
    if "m \<in> set (map catalog_entry [0..<k])" for m
    using that assms by auto
qed

lemma float_index_30_22_11: "float_index 30 22 11 = 14"
proof -
  have r1: "round_half_even (30 / 22 / pow2 (0 - 52)) = 6141272219141585"
    by (simp add: pow2_def round_half_even_def Let_def)
  have "round_double (30 / 22) = Fin (of_int 6141272219141585 * pow2 (0 - 52))"
    by (rule round_double_eqI[OF _ _ _ _ r1]) (simp_all add: pow2_def)
  then have s: "round_double (real 30 / of_int 22) = Fin (6141272219141585 / 4503599627370496)"
    by (simp add: pow2_def)
  have r2: "round_half_even (11 * (6141272219141585 / 4503599627370496) / pow2 (3 - 52))
              = 8444249301319679"
    by (simp add: pow2_def round_half_even_def Let_def)
  have "round_double (11 * (6141272219141585 / 4503599627370496))
          = Fin (of_int 8444249301319679 * pow2 (3 - 52))"
    by (rule round_double_eqI[OF _ _ _ _ r2]) (simp_all add: pow2_def)
  then have p: "py_mul (Fin (real 11)) (Fin (6141272219141585 / 4503599627370496))
                  = Fin (8444249301319679 / 562949953421312)"
    by (simp add: py_mul_def is_inf_def pow2_def)
  show ?thesis unfolding float_index_def s p by simp
qed

theorem float_index_counterexample:
  "(\<exists>sel. get_benchmark_models (Inl RuntimeError) (map catalog_entry [0..<30]) 10 5000 22 = Inr sel
      \<and> length sel = 22
      \<and> reaction_count (sel ! 11) = 24)
   \<and> size_filter 10 5000 (map catalog_entry [0..<30]) = map catalog_entry [0..<30]
   \<and> spec_index 30 22 11 = 15
   \<and> reaction_count (map catalog_entry [0..<30] ! 15) = 25"
proof -
  have f: "size_filter 10 5000 (map catalog_entry [0..<30]) = map catalog_entry [0..<30]"
    by (rule catalog_entries_filtered) simp
  have "get_benchmark_models (Inl RuntimeError) (map catalog_entry [0..<30]) 10 5000 22
          = Inr (map (\<lambda>i. size_filter 10 5000 (map catalog_entry [0..<30])
                              ! float_index (length (size_filter 10 5000 (map catalog_entry [0..<30]))) 22 i)
                   [0..<nat 22])"
    by (rule get_benchmark_models_eq) (simp_all add: f)
  then have g: "get_benchmark_models (Inl RuntimeError) (map catalog_entry [0..<30]) 10 5000 22
          = Inr (map (\<lambda>i. map catalog_entry [0..<30] ! float_index 30 22 i) [0..<22])"
    by (simp add: f)
  have "reaction_count (map (\<lambda>i. map catalog_entry [0..<30] ! float_index 30 22 i) [0..<22] ! 11) = 24"
    by (simp add: float_index_30_22_11)
  moreover have "spec_index 30 22 11 = 15" by (simp add: spec_index_def)
  ultimately show ?thesis using g f by simp
qed

lemma float_index_6_4:
  "float_index 6 4 0 = 0" "float_index 6 4 (Suc 0) = 1" "float_index 6 4 2 = 3" "float_index 6 4 3 = 4"
proof -
  have "round_double (of_int 3 * pow2 (- 1)) = Fin (of_int 3 * pow2 (- 1))"
    by (rule round_double_exact) simp_all
  then have a: "round_double (3 / 2) = Fin (3 / 2)" by (simp add: pow2_def)
  have "round_double (of_int 9 * pow2 (- 1)) = Fin (of_int 9 * pow2 (- 1))"
    by (rule round_double_exact) simp_all
  then have b: "round_double (9 / 2) = Fin (9 / 2)" by (simp add: pow2_def)
  have c: "round_double 3 = Fin 3" using round_double_of_int[of 3] by simp
  have s: "round_double (real 6 / of_int 4) = Fin (3 / 2)" using a by simp
  show "float_index 6 4 0 = 0" unfolding float_index_def s by (simp add: py_mul_def is_inf_def)
  show "float_index 6 4 (Suc 0) = 1" unfolding float_index_def s by (simp add: py_mul_def is_inf_def a)
  show "float_index 6 4 2 = 3" unfolding float_index_def s by (simp add: py_mul_def is_inf_def c)
  show "float_index 6 4 3 = 4" unfolding float_index_def s by (simp add: py_mul_def is_inf_def b)
qed

theorem get_benchmark_models_selection_witness:
  "get_benchmark_models (Inl RuntimeError)
     [\<lparr>bigg_id = ''a'', organism = ''o'', metabolite_count = 0, reaction_count = 30, gene_count = 0\<rparr>,
      \<lparr>bigg_id = ''b'', organism = ''o'', metabolite_count = 0, reaction_count = 5, gene_count = 0\<rparr>,
      \<lparr>bigg_id = ''c'', organism = ''o'', metabolite_count = 0, reaction_count = 12, gene_count = 0\<rparr>,
      \<lparr>bigg_id = ''d'', organism = ''o'', metabolite_count = 0, reaction_count = 20, gene_count = 0\<rparr>,
      \<lparr>bigg_id = ''e'', organism = ''o'', metabolite_count = 0, reaction_count = 12, gene_count = 0\<rparr>,
      \<lparr>bigg_id = ''f'', organism = ''o'', metabolite_count = 0, reaction_count = 9000, gene_count = 0\<rparr>,
      \<lparr>bigg_id = ''g'', organism = ''o'', metabolite_count = 0, reaction_count = 18, gene_count = 0\<rparr>,
      \<lparr>bigg_id = ''h'', organism = ''o'', metabolite_count = 0, reaction_count = 25, gene_count = 0\<rparr>]
     10 5000 4
   = Inr
     [\<lparr>bigg_id = ''c'', organism = ''o'', metabolite_count = 0, reaction_count = 12, gene_count = 0\<rparr>,
      \<lparr>bigg_id = ''e'', organism = ''o'', metabolite_count = 0, reaction_count = 12, gene_count = 0\<rparr>,
      \<lparr>bigg_id = ''d'', organism = ''o'', metabolite_count = 0, reaction_count = 20, gene_count = 0\<rparr>,
      \<lparr>bigg_id = ''h'', organism = ''o'', metabolite_count = 0, reaction_count = 25, gene_count = 0\<rparr>]
   \<and> get_benchmark_models (Inl RuntimeError) (map catalog_entry [0..<1000]) 10 5000 100
       = Inr (map (\<lambda>i. catalog_entry (10 * i)) [0..<100])
   \<and> sorted_wrt (<) (map reaction_count (map (\<lambda>i. catalog_entry (10 * i)) [0..<100]))
   \<and> get_benchmark_models (Inl RuntimeError) (map catalog_entry [0..<3]) 10 5000 3
       = Inr (map catalog_entry [0..<3])
   \<and> get_benchmark_models (Inl RuntimeError) (map catalog_entry [0..<3]) 10 5000 0
       = Inl ZeroDivisionError
   \<and> get_benchmark_models (Inl RuntimeError) (map catalog_entry [0..<3]) 10 5000 (- 2) = Inr []"
proof -
  let ?C = "[\<lparr>bigg_id = ''a'', organism = ''o'', metabolite_count = 0, reaction_count = 30, gene_count = 0\<rparr>,
      \<lparr>bigg_id = ''b'', organism = ''o'', metabolite_count = 0, reaction_count = 5, gene_count = 0\<rparr>,
      \<lparr>bigg_id = ''c'', organism = ''o'', metabolite_count = 0, reaction_count = 12, gene_count = 0\<rparr>,
      \<lparr>bigg_id = ''d'', organism = ''o'', metabolite_count = 0, reaction_count = 20, gene_count = 0\<rparr>,
      \<lparr>bigg_id = ''e'', organism = ''o'', metabolite_count = 0, reaction_count = 12, gene_count = 0\<rparr>,
      \<lparr>bigg_id = ''f'', organism = ''o'', metabolite_count = 0, reaction_count = 9000, gene_count = 0\<rparr>,
      \<lparr>bigg_id = ''g'', organism = ''o'', metabolite_count = 0, reaction_count = 18, gene_count = 0\<rparr>,
      \<lparr>bigg_id = ''h'', organism = ''o'', metabolite_count = 0, reaction_count = 25, gene_count = 0\<rparr>]"
  have fC: "size_filter 10 5000 ?C =
     [\<lparr>bigg_id = ''c'', organism = ''o'', metabolite_count = 0, reaction_count = 12, gene_count = 0\<rparr>,
      \<lparr>bigg_id = ''e'', organism = ''o'', metabolite_count = 0, reaction_count = 12, gene_count = 0\<rparr>,
      \<lparr>bigg_id = ''g'', organism = ''o'', metabolite_count = 0, reaction_count = 18, gene_count = 0\<rparr>,
      \<lparr>bigg_id = ''d'', organism = ''o'', metabolite_count = 0, reaction_count = 20, gene_count = 0\<rparr>,
      \<lparr>bigg_id = ''h'', organism = ''o'', metabolite_count = 0, reaction_count = 25, gene_count = 0\<rparr>,
      \<lparr>bigg_id = ''a'', organism = ''o'', metabolite_count = 0, reaction_count = 30, gene_count = 0\<rparr>]"
    by (simp add: size_filter_def)
  have u4: "[0..<4::nat] = [0, 1, 2, 3]" by (simp add: upt_rec)
  have len: "length
     [\<lparr>bigg_id = ''c'', organism = ''o'', metabolite_count = 0, reaction_count = 12, gene_count = 0\<rparr>,
      \<lparr>bigg_id = ''e'', organism = ''o'', metabolite_count = 0, reaction_count = 12, gene_count = 0\<rparr>,
      \<lparr>bigg_id = ''g'', organism = ''o'', metabolite_count = 0, reaction_count = 18, gene_count = 0\<rparr>,
      \<lparr>bigg_id = ''d'', organism = ''o'', metabolite_count = 0, reaction_count = 20, gene_count = 0\<rparr>,
      \<lparr>bigg_id = ''h'', organism = ''o'', metabolite_count = 0, reaction_count = 25, gene_count = 0\<rparr>,
      \<lparr>bigg_id = ''a'', organism = ''o'', metabolite_count = 0, reaction_count = 30, gene_count = 0\<rparr>] = 6"
    by simp
  have a: "get_benchmark_models (Inl RuntimeError) ?C 10 5000 4 = Inr
     [\<lparr>bigg_id = ''c'', organism = ''o'', metabolite_count = 0, reaction_count = 12, gene_count = 0\<rparr>,
      \<lparr>bigg_id = ''e'', organism = ''o'', metabolite_count = 0, reaction_count = 12, gene_count = 0\<rparr>,
      \<lparr>bigg_id = ''d'', organism = ''o'', metabolite_count = 0, reaction_count = 20, gene_count = 0\<rparr>,
      \<lparr>bigg_id = ''h'', organism = ''o'', metabolite_count = 0, reaction_count = 25, gene_count = 0\<rparr>]"
    using get_benchmark_models_selection[where catalog = ?C and fetched = "Inl RuntimeError"
        and cat = ?C and lo = 10 and hi = 5000 and limit = 4]
    unfolding fC len by (simp add: u4 float_index_6_4)
  have f1000: "size_filter 10 5000 (map catalog_entry [0..<1000]) = map catalog_entry [0..<1000]"
    by (rule catalog_entries_filtered) simp
  have d: "distinct (map reaction_count (map catalog_entry [0..<1000]))"
    by (simp add: distinct_map comp_def inj_on_def)
  have e: "map (\<lambda>i. map catalog_entry [0..<1000] ! (10 * i)) [0..<100]
             = map (\<lambda>i. catalog_entry (10 * i)) [0..<100]"
    by (rule map_cong) simp_all
  have h1: "(if map catalog_entry [0..<1000] = [] then Inl RuntimeError
             else Inr (map catalog_entry [0..<1000])) = Inr (map catalog_entry [0..<1000])"
    by simp
  have h2: "length (size_filter 10 5000 (map catalog_entry [0..<1000])) < 2 ^ 51"
    unfolding f1000 by simp
  have n1000: "length (size_filter 10 5000 (map catalog_entry [0..<1000])) = 1000"
    unfolding f1000 by simp
  have d': "distinct (map reaction_count (size_filter 10 5000 (map catalog_entry [0..<1000])))"
    unfolding f1000 by (rule d)
  have "get_benchmark_models (Inl RuntimeError) (map catalog_entry [0..<1000]) 10 5000 100
          = Inr (map (\<lambda>i. size_filter 10 5000 (map catalog_entry [0..<1000]) ! (10 * i)) [0..<100])
        \<and> sorted_wrt (<) (map reaction_count
              (map (\<lambda>i. size_filter 10 5000 (map catalog_entry [0..<1000]) ! (10 * i)) [0..<100]))"
    using get_benchmark_models_selection[OF h1 h2, where limit = 100] n1000 d' by blast
  then have b: "get_benchmark_models (Inl RuntimeError) (map catalog_entry [0..<1000]) 10 5000 100
             = Inr (map (\<lambda>i. catalog_entry (10 * i)) [0..<100])
           \<and> sorted_wrt (<) (map reaction_count (map (\<lambda>i. catalog_entry (10 * i)) [0..<100]))"
    unfolding f1000 e .
  have f3: "size_filter 10 5000 (map catalog_entry [0..<3]) = map catalog_entry [0..<3]"
    by (rule catalog_entries_filtered) simp
  have c: "get_benchmark_models (Inl RuntimeError) (map catalog_entry [0..<3]) 10 5000 3
             = Inr (map catalog_entry [0..<3])"
    using get_benchmark_models_selection[where catalog = "map catalog_entry [0..<3]"
        and fetched = "Inl RuntimeError" and cat = "map catalog_entry [0..<3]"
        and lo = 10 and hi = 5000 and limit = 3]
    unfolding f3 by simp
  have z: "get_benchmark_models (Inl RuntimeError) (map catalog_entry [0..<3]) 10 5000 0
             = Inl ZeroDivisionError"
    using get_benchmark_models_selection[where catalog = "map catalog_entry [0..<3]"
        and fetched = "Inl RuntimeError" and cat = "map catalog_entry [0..<3]"
        and lo = 10 and hi = 5000 and limit = 0]
    unfolding f3 by simp
  have n: "get_benchmark_models (Inl RuntimeError) (map catalog_entry [0..<3]) 10 5000 (- 2) = Inr []"
    using get_benchmark_models_selection[where catalog = "map catalog_entry [0..<3]"
        and fetched = "Inl RuntimeError" and cat = "map catalog_entry [0..<3]"
        and lo = 10 and hi = 5000 and limit = "- 2"]
    unfolding f3 by simp
  show ?thesis using a b c z n by blast
qed

end
